theory Spec2Isabelle
  imports Complex_Main
begin

section \<open>JavaScript numbers and Math helpers\<close>

text \<open>
  Timestamps come from \<^verbatim>\<open>Date.now()\<close> (whole milliseconds) and are modelled as
  \<^typ>\<open>int\<close>. The one place where the source can leave the integers is
  \<^verbatim>\<open>Math.min(...validAttempts)\<close> on an empty array, which is \<^verbatim>\<open>Infinity\<close>; the number
  type below carries that value.
\<close>

datatype jsnum = Finite int | Infinity

text \<open>\<^verbatim>\<open>Math.min(a, b)\<close> on the values above.\<close>

fun js_min :: "jsnum \<Rightarrow> jsnum \<Rightarrow> jsnum" where
  "js_min (Finite a) (Finite b) = Finite (min a b)"
| "js_min (Finite a) Infinity = Finite a"
| "js_min Infinity b = b"

text \<open>
  \<^verbatim>\<open>Math.min(...xs)\<close>: the least argument, starting from \<^verbatim>\<open>Infinity\<close> for no
  argument at all.
\<close>

definition math_min :: "int list \<Rightarrow> jsnum" where
  "math_min xs = fold (\<lambda>x acc. js_min acc (Finite x)) xs Infinity"

text \<open>
  \<^verbatim>\<open>Math.ceil(x / d)\<close> for an integer \<open>x\<close> and a positive integer \<open>d\<close>
  (HOL's \<open>div\<close> rounds down).
\<close>

definition ceil_div :: "int \<Rightarrow> int \<Rightarrow> int" where
  "ceil_div x d = - ((- x) div d)"

text \<open>\<^verbatim>\<open>windowMs - (now - oldestAttempt)\<close>: with \<^verbatim>\<open>oldestAttempt = Infinity\<close> the
  inner difference is \<^verbatim>\<open>-Infinity\<close> and the result \<^verbatim>\<open>Infinity\<close>.\<close>

fun window_minus_age :: "int \<Rightarrow> int \<Rightarrow> jsnum \<Rightarrow> jsnum" where
  "window_minus_age w now (Finite oldest) = Finite (w - (now - oldest))"
| "window_minus_age w now Infinity = Infinity"

text \<open>\<^verbatim>\<open>Math.ceil(timeToWait / 1000)\<close>; \<^verbatim>\<open>Math.ceil(Infinity)\<close> is \<^verbatim>\<open>Infinity\<close>.\<close>

fun ceil_seconds :: "jsnum \<Rightarrow> jsnum" where
  "ceil_seconds (Finite ms) = Finite (ceil_div ms 1000)"
| "ceil_seconds Infinity = Infinity"

text \<open>The comparison \<^verbatim>\<open>x > 0\<close>.\<close>

fun js_positive :: "jsnum \<Rightarrow> bool" where
  "js_positive (Finite n) = (0 < n)"
| "js_positive Infinity = True"


section \<open>Persisted state (localStorage) and the security log\<close>

text \<open>
  \<^verbatim>\<open>localStorage\<close> holds text. Each getter of the source reads one key, answers
  the empty value when the item is absent or empty, and catches the exception of
  \<^verbatim>\<open>JSON.parse\<close>. An item is therefore modelled as absent (\<open>None\<close>), as text that is
  empty or that \<^verbatim>\<open>JSON.parse\<close> rejects (\<open>Unparseable\<close>), or as the value that the
  code itself writes under that key (\<open>Parsed\<close>): \<^verbatim>\<open>JSON.parse (JSON.stringify v)\<close> gives
  \<open>v\<close> back for arrays of integers and for flat objects of integers and strings.
  The store is trusted to hold nothing else under these keys, and its reads and
  writes are taken to succeed.
\<close>

datatype 'a stored = Unparseable | Parsed 'a

record violation =
  timestamp :: int
  reason :: string

text \<open>The lockout object \<^verbatim>\<open>{ until, reason, timestamp }\<close>; the last two fields carry a
  prefix here because a violation has fields of the same names.\<close>

record lockout_rec =
  until :: int
  lock_reason :: string
  lock_timestamp :: int

text \<open>
  The world of the rate limiting code: the items \<^verbatim>\<open>ratelimit_<action>\<close> (indexed by
  the action), \<^verbatim>\<open>ratelimit_lockout\<close> and \<^verbatim>\<open>ratelimit_lockout_violations\<close>, the flag
  \<^verbatim>\<open>SECURITY_CONFIG.enableSecurityLogging\<close> (declared outside these sources) and
  the calls of \<^verbatim>\<open>logSecurity\<close> that went through, as (level, message). Rate limiter
  actions are taken to differ from \<^verbatim>\<open>lockout\<close> and \<^verbatim>\<open>lockout_violations\<close>, as the two
  limiters the source builds do.
\<close>

record world =
  attempts_item :: "string \<Rightarrow> int list stored option"
  lockout_item :: "lockout_rec stored option"
  violations_item :: "violation list stored option"
  enableSecurityLogging :: bool
  security_log :: "(string \<times> string) list"

text \<open>\<^verbatim>\<open>logSecurity(level, message, metadata)\<close>: console output and a telemetry
  event when logging is enabled; it never touches \<^verbatim>\<open>localStorage\<close>.\<close>

definition logSecurity :: "string \<Rightarrow> string \<Rightarrow> world \<Rightarrow> world" where
  "logSecurity level message w =
     (if \<not> enableSecurityLogging w then w
      else w\<lparr>security_log := security_log w @ [(level, message)]\<rparr>)"


section \<open>RATE\_LIMIT\_CONFIG\<close>

definition maxFailedAttempts :: nat where
  "maxFailedAttempts = 5"

definition lockoutDuration :: int where
  "lockoutDuration = 300000"


section \<open>class RateLimiter\<close>

record RateLimiter =
  action :: string
  maxAttempts :: nat
  windowMs :: int

datatype allowed_result =
    Allowed (remainingAttempts: int)
  | Denied (timeToWait: jsnum)

definition getAttempts :: "RateLimiter \<Rightarrow> world \<Rightarrow> int list" where
  "getAttempts rl w =
     (case attempts_item w (action rl) of
        None \<Rightarrow> []
      | Some Unparseable \<Rightarrow> []
      | Some (Parsed xs) \<Rightarrow> xs)"

definition saveAttempts :: "RateLimiter \<Rightarrow> int list \<Rightarrow> world \<Rightarrow> world" where
  "saveAttempts rl attempts w =
     w\<lparr>attempts_item := (attempts_item w)(action rl := Some (Parsed attempts))\<rparr>"

text \<open>\<^verbatim>\<open>reset()\<close> removes the item.\<close>

definition reset :: "RateLimiter \<Rightarrow> world \<Rightarrow> world" where
  "reset rl w = w\<lparr>attempts_item := (attempts_item w)(action rl := None)\<rparr>"

text \<open>The filter of \<^verbatim>\<open>isAllowed\<close>: the attempts still inside the window at \<open>now\<close>.\<close>

definition validAttempts :: "RateLimiter \<Rightarrow> int \<Rightarrow> world \<Rightarrow> int list" where
  "validAttempts rl now w =
     filter (\<lambda>timestamp. now - timestamp < windowMs rl) (getAttempts rl w)"

text \<open>
  \<^verbatim>\<open>isAllowed()\<close> at the instant \<open>now\<close> (the value of its \<^verbatim>\<open>Date.now()\<close>): the
  result and the world after the call. The denying branch returns before
  \<^verbatim>\<open>saveAttempts\<close>; it only logs.
\<close>

definition isAllowed :: "RateLimiter \<Rightarrow> int \<Rightarrow> world \<Rightarrow> allowed_result \<times> world" where
  "isAllowed rl now w =
     (let valid = validAttempts rl now w in
      if maxAttempts rl \<le> length valid then
        (let oldestAttempt = math_min valid;
             wait = window_minus_age (windowMs rl) now oldestAttempt
         in (Denied (ceil_seconds wait),
             logSecurity ''warn'' (''Rate limit exceeded for '' @ action rl) w))
      else
        (let valid' = valid @ [now]
         in (Allowed (int (maxAttempts rl) - int (length valid')),
             saveAttempts rl valid' w)))"

text \<open>A sequence of calls, one per instant of the list, threading the world.\<close>

fun isAllowed_calls :: "RateLimiter \<Rightarrow> int list \<Rightarrow> world \<Rightarrow> allowed_result list \<times> world" where
  "isAllowed_calls rl [] w = ([], w)"
| "isAllowed_calls rl (now # rest) w =
     (let (r, w') = isAllowed rl now w;
          (rs, w'') = isAllowed_calls rl rest w'
      in (r # rs, w''))"

fun is_allowed :: "allowed_result \<Rightarrow> bool" where
  "is_allowed (Allowed _) = True"
| "is_allowed (Denied _) = False"


text \<open>The stored list never holds more entries than the cap: true of empty storage
  and kept by every call of \<^verbatim>\<open>isAllowed\<close> (shown below).\<close>

definition within_cap :: "RateLimiter \<Rightarrow> world \<Rightarrow> bool" where
  "within_cap rl w \<longleftrightarrow> length (getAttempts rl w) \<le> maxAttempts rl"


section \<open>class LockoutManager\<close>

text \<open>
  The three shapes that \<^verbatim>\<open>isLockedOut()\<close> returns: the boolean \<^verbatim>\<open>false\<close>, the object
  \<^verbatim>\<open>{ locked: false }\<close> and the object \<^verbatim>\<open>{ locked: true, timeRemaining, reason }\<close>.
\<close>

datatype lockout_result =
    BareFalse
  | Unlocked
  | Locked (timeRemaining: int) (locked_reason: string)

text \<open>
  What a caller sees. Every caller in the source tests \<^verbatim>\<open>lockout.locked\<close>; on the
  boolean \<^verbatim>\<open>false\<close> that property is \<^verbatim>\<open>undefined\<close>, which is falsy. The result value
  itself is falsy only when it is the boolean: every object is truthy.
\<close>

fun locked :: "lockout_result \<Rightarrow> bool" where
  "locked BareFalse = False"
| "locked Unlocked = False"
| "locked (Locked _ _) = True"

fun truthy :: "lockout_result \<Rightarrow> bool" where
  "truthy BareFalse = False"
| "truthy Unlocked = True"
| "truthy (Locked _ _) = True"

definition getLockout :: "world \<Rightarrow> lockout_rec option" where
  "getLockout w =
     (case lockout_item w of
        None \<Rightarrow> None
      | Some Unparseable \<Rightarrow> None
      | Some (Parsed l) \<Rightarrow> Some l)"

definition clearLockout :: "world \<Rightarrow> world" where
  "clearLockout w = w\<lparr>lockout_item := None, violations_item := None\<rparr>"

definition isLockedOut :: "int \<Rightarrow> world \<Rightarrow> lockout_result \<times> world" where
  "isLockedOut now w =
     (case getLockout w of
        None \<Rightarrow> (BareFalse, w)
      | Some l \<Rightarrow>
          if now < until l
          then (Locked (ceil_div (until l - now) 1000) (lock_reason l), w)
          else (Unlocked, clearLockout w))"

definition getViolations :: "world \<Rightarrow> violation list" where
  "getViolations w =
     (case violations_item w of
        None \<Rightarrow> []
      | Some Unparseable \<Rightarrow> []
      | Some (Parsed vs) \<Rightarrow> vs)"

definition saveViolations :: "violation list \<Rightarrow> world \<Rightarrow> world" where
  "saveViolations vs w = w\<lparr>violations_item := Some (Parsed vs)\<rparr>"

text \<open>\<^verbatim>\<open>lockout(reason)\<close>: the item is written without looking at what it held.\<close>

definition lockout :: "string \<Rightarrow> int \<Rightarrow> world \<Rightarrow> world" where
  "lockout r now w =
     logSecurity ''error'' ''User locked out due to repeated violations''
       (w\<lparr>lockout_item :=
            Some (Parsed \<lparr>until = now + lockoutDuration, lock_reason = r, lock_timestamp = now\<rparr>)\<rparr>)"

text \<open>The violations of \<^verbatim>\<open>recordViolation\<close> after the push and the filter.\<close>

definition recentViolations :: "string \<Rightarrow> int \<Rightarrow> world \<Rightarrow> violation list" where
  "recentViolations r now w =
     filter (\<lambda>v. now - timestamp v < 300000)
       (getViolations w @ [\<lparr>timestamp = now, reason = r\<rparr>])"

text \<open>
  \<^verbatim>\<open>recordViolation(reason)\<close> at the instant \<open>now\<close>; the reads of \<^verbatim>\<open>Date.now()\<close> inside
  one synchronous call are taken to give the same millisecond. The function does not
  consult \<^verbatim>\<open>isLockedOut\<close>.
\<close>

definition recordViolation :: "string \<Rightarrow> int \<Rightarrow> world \<Rightarrow> bool \<times> world" where
  "recordViolation r now w =
     (let recent = recentViolations r now w;
          w' = saveViolations recent w
      in if maxFailedAttempts \<le> length recent
         then (True, lockout r now w')
         else (False, w'))"

fun isLockedOut_calls :: "int list \<Rightarrow> world \<Rightarrow> lockout_result list \<times> world" where
  "isLockedOut_calls [] w = ([], w)"
| "isLockedOut_calls (now # rest) w =
     (let (r, w') = isLockedOut now w;
          (rs, w'') = isLockedOut_calls rest w'
      in (r # rs, w''))"

fun recordViolation_calls :: "(string \<times> int) list \<Rightarrow> world \<Rightarrow> bool list \<times> world" where
  "recordViolation_calls [] w = ([], w)"
| "recordViolation_calls ((r, now) # rest) w =
     (let (b, w') = recordViolation r now w;
          (bs, w'') = recordViolation_calls rest w'
      in (b # bs, w''))"


section \<open>The event queue and its delivery (security-logger.js)\<close>

text \<open>A metadata value of a client event: a number, a string or a boolean.\<close>

datatype jsval = JNum int | JStr string | JBool bool

text \<open>The event object built by \<^verbatim>\<open>logSecurityEventToServer\<close>; the fields carry the
  prefix \<open>te\<close> because the events that the collector classifies have fields of the
  same names.\<close>

record telemetry_event =
  te_eventType :: string
  te_sessionId :: string
  te_eventNumber :: nat
  te_sessionDuration :: int
  te_url :: string
  te_metadata :: "(string \<times> jsval) list"

text \<open>What a call reads from the browser: \<^verbatim>\<open>Date.now()\<close>, \<^verbatim>\<open>location.href\<close>, the
  navigator's user agent and language, the formatted screen resolution and the time
  zone.\<close>

record browser =
  date_now :: int
  location_href :: string
  userAgent :: string
  language :: string
  screenResolution :: string
  timeZone :: string

text \<open>
  The module state of the logger: the two fields of \<^verbatim>\<open>LOGGING_CONFIG\<close> that the code
  reads, the session constants, the counter, the queue, whether a flush timer is
  pending, and the event lists handed to \<^verbatim>\<open>fetch\<close> so far, oldest first (the
  random \<^verbatim>\<open>batchId\<close> of a request is left out).
\<close>

record logging =
  enabled :: bool
  batchSize :: nat
  sessionId :: string
  sessionStartTime :: int
  eventCounter :: nat
  eventQueue :: "telemetry_event list"
  flushTimer :: bool
  requests :: "telemetry_event list list"

text \<open>An object property written by a spread or a literal: an existing key keeps its
  place and takes the new value, a new key goes last.\<close>

fun set_property :: "string \<Rightarrow> jsval \<Rightarrow> (string \<times> jsval) list \<Rightarrow> (string \<times> jsval) list" where
  "set_property k v [] = [(k, v)]"
| "set_property k v (p # ps) = (if fst p = k then (k, v) # ps else p # set_property k v ps)"

definition make_event ::
    "logging \<Rightarrow> browser \<Rightarrow> string \<Rightarrow> (string \<times> jsval) list \<Rightarrow> telemetry_event" where
  "make_event p br eventType metadata =
     \<lparr>te_eventType = eventType,
      te_sessionId = sessionId p,
      te_eventNumber = Suc (eventCounter p),
      te_sessionDuration = date_now br - sessionStartTime p,
      te_url = location_href br,
      te_metadata =
        set_property ''timezone'' (JStr (timeZone br))
          (set_property ''screenResolution'' (JStr (screenResolution br))
            (set_property ''language'' (JStr (language br))
              (set_property ''userAgent'' (JStr (userAgent br)) metadata)))\<rparr>"

definition scheduleFlush :: "logging \<Rightarrow> logging" where
  "scheduleFlush p = (if flushTimer p then p else p\<lparr>flushTimer := True\<rparr>)"

text \<open>
  \<^verbatim>\<open>flushEvents()\<close> suspends once, at \<^verbatim>\<open>await fetch\<close>. \<open>flushEvents_start\<close> is the part
  that runs before the suspension, up to and including the call of \<^verbatim>\<open>fetch\<close>: it
  answers the snapshot \<^verbatim>\<open>eventsToSend\<close> whose delivery is now in flight, or \<open>None\<close>
  when the queue was empty and the function returned at once.
\<close>

definition flushEvents_start :: "logging \<Rightarrow> telemetry_event list option \<times> logging" where
  "flushEvents_start p =
     (if eventQueue p = [] then (None, p)
      else
        (let eventsToSend = eventQueue p
         in (Some eventsToSend,
             p\<lparr>eventQueue := [], flushTimer := False,
               requests := requests p @ [eventsToSend]\<rparr>)))"

text \<open>How the awaited \<^verbatim>\<open>fetch\<close> ends: a response with its HTTP status, or an
  exception. \<^verbatim>\<open>response.ok\<close> holds for the statuses 200 to 299.\<close>

datatype fetch_outcome = Responded int | Threw

definition response_ok :: "int \<Rightarrow> bool" where
  "response_ok status \<longleftrightarrow> 200 \<le> status \<and> status \<le> 299"

text \<open>\<open>flushEvents_resume\<close> is the part of \<^verbatim>\<open>flushEvents()\<close> that runs after the
  suspension, on the state that the module has by then.\<close>

definition flushEvents_resume ::
    "fetch_outcome \<Rightarrow> telemetry_event list \<Rightarrow> logging \<Rightarrow> logging" where
  "flushEvents_resume outcome eventsToSend p =
     (case outcome of
        Responded status \<Rightarrow>
          if \<not> response_ok status then
            (if length eventsToSend < 100
             then p\<lparr>eventQueue := eventsToSend @ eventQueue p\<rparr>
             else p)
          else p
      | Threw \<Rightarrow>
          if length eventsToSend < 100
          then p\<lparr>eventQueue := eventsToSend @ eventQueue p\<rparr>
          else p)"

text \<open>
  \<^verbatim>\<open>logSecurityEventToServer(eventType, metadata)\<close> up to its own suspension: the
  event is built and pushed, then either a flush starts (answering its snapshot) or
  a flush is scheduled.
\<close>

definition logSecurityEventToServer ::
    "browser \<Rightarrow> string \<Rightarrow> (string \<times> jsval) list \<Rightarrow> logging
      \<Rightarrow> telemetry_event list option \<times> logging" where
  "logSecurityEventToServer br eventType metadata p =
     (if \<not> enabled p then (None, p)
      else
        (let event = make_event p br eventType metadata;
             p' = p\<lparr>eventCounter := Suc (eventCounter p),
                    eventQueue := eventQueue p @ [event]\<rparr>
         in if batchSize p' \<le> length (eventQueue p')
            then flushEvents_start p'
            else (None, scheduleFlush p')))"

text \<open>A run of calls of \<^verbatim>\<open>logSecurityEventToServer\<close>, each with the browser values it
  reads, and the events that the calls of such a run build.\<close>

type_synonym log_call = "browser \<times> string \<times> (string \<times> jsval) list"

fun log_calls :: "log_call list \<Rightarrow> logging \<Rightarrow> logging" where
  "log_calls [] p = p"
| "log_calls ((br, ty, md) # cs) p = log_calls cs (snd (logSecurityEventToServer br ty md p))"

fun events_of_calls :: "log_call list \<Rightarrow> logging \<Rightarrow> telemetry_event list" where
  "events_of_calls [] p = []"
| "events_of_calls ((br, ty, md) # cs) p =
     make_event p br ty md # events_of_calls cs (snd (logSecurityEventToServer br ty md p))"


section \<open>The event classifier of the collector (logging-service.js)\<close>

text \<open>
  The enriched event as \<^verbatim>\<open>checkSecurityPatterns\<close> reads it: its type (a string, since
  \<^verbatim>\<open>validateEvent\<close> has accepted it) and four properties of its metadata, typed as the
  client writes them, numbers for the counts and the latency and strings for the
  reason and the message. \<open>None\<close> is \<^verbatim>\<open>undefined\<close>: a missing property, or any
  property of a missing metadata object (\<^verbatim>\<open>metadata?.x\<close>).
\<close>

record event_metadata =
  openCount :: "int option"
  md_reason :: "string option"
  timeSinceLastClick :: "int option"
  errorMessage :: "string option"

record event =
  eventType :: string
  metadata :: "event_metadata option"

text \<open>\<^verbatim>\<open>s.includes(p)\<close>: \<open>p\<close> occurs in \<open>s\<close> as a contiguous part.\<close>

fun str_includes :: "string \<Rightarrow> string \<Rightarrow> bool" where
  "str_includes [] p = (p = [])"
| "str_includes (c # cs) p = (take (length p) (c # cs) = p \<or> str_includes cs p)"

text \<open>The conditions of the five patterns; a comparison with \<^verbatim>\<open>undefined\<close> is false.\<close>

definition pattern1 :: "event \<Rightarrow> bool" where
  "pattern1 e \<longleftrightarrow>
     eventType e = ''overlay_opened'' \<and>
     (case metadata e of None \<Rightarrow> False
      | Some m \<Rightarrow> (case openCount m of None \<Rightarrow> False | Some n \<Rightarrow> 50 < n))"

definition pattern2 :: "event \<Rightarrow> bool" where
  "pattern2 e \<longleftrightarrow>
     eventType e = ''security_block'' \<and>
     (case metadata e of None \<Rightarrow> False
      | Some m \<Rightarrow> md_reason m = Some ''Domini no autoritzat'')"

definition pattern3 :: "event \<Rightarrow> bool" where
  "pattern3 e \<longleftrightarrow>
     eventType e = ''document_clicked'' \<and>
     (case metadata e of None \<Rightarrow> False
      | Some m \<Rightarrow> (case timeSinceLastClick m of None \<Rightarrow> False | Some n \<Rightarrow> n < 100))"

definition pattern4 :: "event \<Rightarrow> bool" where
  "pattern4 e \<longleftrightarrow> eventType e = ''sheet_edit_accessed''"

definition pattern5 :: "event \<Rightarrow> bool" where
  "pattern5 e \<longleftrightarrow>
     eventType e = ''error'' \<and>
     (case metadata e of None \<Rightarrow> False
      | Some m \<Rightarrow> (case errorMessage m of None \<Rightarrow> False | Some s \<Rightarrow> str_includes s ''CORS''))"

text \<open>
  The objects of the collector live in a store, so that what the function writes is
  visible: a reference is an index into the list of objects, and a new object goes
  to the end of the list.
\<close>

datatype jsobject = EventObject event | ArrayObject "string list"

type_synonym heap = "jsobject list"

type_synonym ref = nat

definition alloc :: "jsobject \<Rightarrow> heap \<Rightarrow> ref \<times> heap" where
  "alloc obj h = (length h, h @ [obj])"

definition event_at :: "heap \<Rightarrow> ref \<Rightarrow> event option" where
  "event_at h r =
     (if r < length h
      then (case h ! r of EventObject e \<Rightarrow> Some e | ArrayObject _ \<Rightarrow> None)
      else None)"

definition array_at :: "heap \<Rightarrow> ref \<Rightarrow> string list option" where
  "array_at h r =
     (if r < length h
      then (case h ! r of ArrayObject xs \<Rightarrow> Some xs | EventObject _ \<Rightarrow> None)
      else None)"

text \<open>\<^verbatim>\<open>flags.push(x)\<close> on the array object behind the reference.\<close>

definition push :: "ref \<Rightarrow> string \<Rightarrow> heap \<Rightarrow> heap" where
  "push r x h =
     (case array_at h r of
        Some xs \<Rightarrow> h[r := ArrayObject (xs @ [x])]
      | None \<Rightarrow> h)"

text \<open>One \<^verbatim>\<open>if\<close> statement of the function: the condition is read from the event
  object as the store holds it at that point; \<open>marks\<close> tells whether the branch also
  sets \<^verbatim>\<open>isSuspicious\<close>.\<close>

definition check_pattern ::
    "(event \<Rightarrow> bool) \<Rightarrow> string \<Rightarrow> bool \<Rightarrow> ref \<Rightarrow> ref \<Rightarrow> heap \<times> bool \<Rightarrow> heap \<times> bool" where
  "check_pattern cond flag marks ev flags st =
     (case st of (h, isSuspicious) \<Rightarrow>
        (case event_at h ev of
           None \<Rightarrow> (h, isSuspicious)
         | Some e \<Rightarrow>
             if cond e then (push flags flag h, (if marks then True else isSuspicious))
             else (h, isSuspicious)))"

record check_result =
  isSuspicious :: bool
  flags :: ref

text \<open>
  \<^verbatim>\<open>checkSecurityPatterns(event)\<close> on a reference to the event object: the result
  (with the reference of the new \<^verbatim>\<open>flags\<close> array) and the store after the call.
  \<open>None\<close> stands for a call on a reference that holds no event object, which the
  collector never makes.
\<close>

definition checkSecurityPatterns :: "ref \<Rightarrow> heap \<Rightarrow> (check_result \<times> heap) option" where
  "checkSecurityPatterns ev h =
     (case event_at h ev of
        None \<Rightarrow> None
      | Some _ \<Rightarrow>
          (let (flags, h0) = alloc (ArrayObject []) h;
               st0 = (h0, False);
               st1 = check_pattern pattern1 ''excessive_overlay_opens'' True ev flags st0;
               st2 = check_pattern pattern2 ''blocked_domain_access'' True ev flags st1;
               st3 = check_pattern pattern3 ''rapid_clicking'' True ev flags st2;
               st4 = check_pattern pattern4 ''sheet_edit_attempt'' True ev flags st3;
               st5 = check_pattern pattern5 ''cors_error'' False ev flags st4
           in Some (\<lparr>isSuspicious = snd st5, flags = flags\<rparr>, fst st5)))"

text \<open>The flags and the verdict as functions of the event alone, for the proofs.\<close>

definition flags_of :: "event \<Rightarrow> string list" where
  "flags_of e =
     (if pattern1 e then [''excessive_overlay_opens''] else []) @
     (if pattern2 e then [''blocked_domain_access''] else []) @
     (if pattern3 e then [''rapid_clicking''] else []) @
     (if pattern4 e then [''sheet_edit_attempt''] else []) @
     (if pattern5 e then [''cors_error''] else [])"

definition suspicious_of :: "event \<Rightarrow> bool" where
  "suspicious_of e \<longleftrightarrow> pattern1 e \<or> pattern2 e \<or> pattern3 e \<or> pattern4 e"


section \<open>Worlds used in the examples\<close>

definition fresh_world :: world where
  "fresh_world =
     \<lparr>attempts_item = (\<lambda>_. None), lockout_item = None, violations_item = None,
      enableSecurityLogging = True, security_log = []\<rparr>"

definition documentLimiter2 :: RateLimiter where
  "documentLimiter2 = \<lparr>action = ''document_click'', maxAttempts = 2, windowMs = 60000\<rparr>"

definition five_violations :: "(string \<times> int) list" where
  "five_violations =
     [(''a'', 0), (''b'', 1000), (''c'', 2000), (''d'', 3000), (''e'', 4000)]"

definition locked_world :: world where
  "locked_world = snd (recordViolation_calls five_violations fresh_world)"

definition expired_world :: world where
  "expired_world =
     fresh_world\<lparr>lockout_item :=
       Some (Parsed \<lparr>until = 5, lock_reason = ''r'', lock_timestamp = 0\<rparr>)\<rparr>"


definition four_violations :: "(string \<times> int) list" where
  "four_violations = [(''a'', 0), (''b'', 1000), (''c'', 2000), (''d'', 3000)]"

definition two_clicks_world :: world where
  "two_clicks_world = snd (isAllowed_calls documentLimiter2 [0, 50] fresh_world)"


section \<open>Logger states used in the examples\<close>

definition browser0 :: browser where
  "browser0 =
     \<lparr>date_now = 1000, location_href = ''https://example.org/'', userAgent = ''ua'',
      language = ''ca'', screenResolution = ''800x600'', timeZone = ''UTC''\<rparr>"

definition logging0 :: logging where
  "logging0 =
     \<lparr>enabled = True, batchSize = 3, sessionId = ''sess'', sessionStartTime = 0,
      eventCounter = 0, eventQueue = [], flushTimer = False, requests = []\<rparr>"

definition click :: log_call where
  "click = (browser0, ''document_clicked'', [(''label'', JStr ''doc'')])"

definition event0 :: "nat \<Rightarrow> telemetry_event" where
  "event0 n =
     \<lparr>te_eventType = ''document_clicked'', te_sessionId = ''sess'', te_eventNumber = n,
      te_sessionDuration = 1000, te_url = ''https://example.org/'',
      te_metadata =
        [(''label'', JStr ''doc''), (''userAgent'', JStr ''ua''), (''language'', JStr ''ca''),
         (''screenResolution'', JStr ''800x600''), (''timezone'', JStr ''UTC'')]\<rparr>"


section \<open>Collector stores used in the examples\<close>

definition rapid_click :: event where
  "rapid_click =
     \<lparr>eventType = ''document_clicked'',
      metadata = Some \<lparr>openCount = None, md_reason = None,
                        timeSinceLastClick = Some 40, errorMessage = None\<rparr>\<rparr>"

definition cors_failure :: event where
  "cors_failure =
     \<lparr>eventType = ''error'',
      metadata = Some \<lparr>openCount = None, md_reason = None, timeSinceLastClick = None,
                        errorMessage = Some ''blocked by CORS policy''\<rparr>\<rparr>"


section \<open>Facts about the helpers\<close>

lemma ceil_div_ceiling: "ceil_div x d = \<lceil>real_of_int x / real_of_int d\<rceil>"
  by (simp add: ceil_div_def ceiling_divide_eq_div)

lemma ceil_div_positive: "0 < x \<Longrightarrow> 0 < ceil_div x 1000"
  unfolding ceil_div_def by linarith

lemma ceil_div_covers: "x \<le> 1000 * ceil_div x 1000"
  unfolding ceil_div_def by linarith

lemma fold_js_min_Finite:
  "fold (\<lambda>x acc. js_min acc (Finite x)) xs (Finite a) = Finite (Min (insert a (set xs)))"
proof (induction xs arbitrary: a)
  case Nil
  show ?case by simp
next
  case (Cons x xs)
  have "Min (insert (min a x) (set xs)) = Min (insert a (insert x (set xs)))"
    by (cases "set xs = {}") (simp_all add: min.assoc)
  with Cons show ?case by simp
qed

lemma math_min_Nil: "math_min [] = Infinity"
  by (simp add: math_min_def)

lemma math_min_Cons: "math_min (x # xs) = Finite (Min (set (x # xs)))"
  by (simp add: math_min_def fold_js_min_Finite)


section \<open>The rate limiter: results of single calls\<close>

lemma getAttempts_logSecurity: "getAttempts rl (logSecurity l m w) = getAttempts rl w"
  by (simp add: getAttempts_def logSecurity_def)

lemma getAttempts_saveAttempts: "getAttempts rl (saveAttempts rl xs w) = xs"
  by (simp add: getAttempts_def saveAttempts_def)

lemma isAllowed_denied:
  assumes "maxAttempts rl \<le> length (validAttempts rl now w)"
  shows "isAllowed rl now w =
           (Denied (ceil_seconds (window_minus_age (windowMs rl) now
                      (math_min (validAttempts rl now w)))),
            logSecurity ''warn'' (''Rate limit exceeded for '' @ action rl) w)"
  using assms by (simp add: isAllowed_def Let_def)

lemma isAllowed_allowed:
  assumes "length (validAttempts rl now w) < maxAttempts rl"
  shows "isAllowed rl now w =
           (Allowed (int (maxAttempts rl) - int (length (validAttempts rl now w @ [now]))),
            saveAttempts rl (validAttempts rl now w @ [now]) w)"
  using assms by (simp add: isAllowed_def Let_def)

lemma wait_of_window_positive:
  "js_positive (ceil_seconds (window_minus_age W now
     (math_min (filter (\<lambda>t. now - t < W) xs))))"
proof (cases "filter (\<lambda>t. now - t < W) xs")
  case Nil
  then show ?thesis by (simp add: math_min_Nil)
next
  case (Cons y ys)
  let ?m = "Min (set (y # ys))"
  have "?m \<in> set (y # ys)"
    by (rule Min_in) simp_all
  then have "?m \<in> set (filter (\<lambda>t. now - t < W) xs)"
    using Cons by simp
  then have "now - ?m < W"
    by simp
  then have "0 < ceil_div (W - (now - ?m)) 1000"
    by (intro ceil_div_positive) simp
  then show ?thesis
    using Cons by (simp add: math_min_Cons)
qed

lemma isAllowed_denied_positive:
  assumes "isAllowed rl now w = (Denied t, w')"
  shows "js_positive t"
proof (cases "maxAttempts rl \<le> length (validAttempts rl now w)")
  case True
  from isAllowed_denied [OF True] assms
  have "t = ceil_seconds (window_minus_age (windowMs rl) now (math_min (validAttempts rl now w)))"
    by simp
  then show ?thesis
    by (simp add: validAttempts_def wait_of_window_positive)
next
  case False
  then have "length (validAttempts rl now w) < maxAttempts rl" by simp
  from isAllowed_allowed [OF this] assms show ?thesis by simp
qed

section \<open>The rate limiter: a burst of calls inside one window\<close>

text \<open>
  The generalised form of the burst property: the stored attempts \<open>xs\<close> are all
  inside the window of every call instant, and the call instants are pairwise closer
  than the window. Then the calls are allowed until the cap is reached, and denied
  from there on.
\<close>

lemma isAllowed_calls_burst:
  assumes "\<forall>x\<in>set (getAttempts rl w). \<forall>t\<in>set ts. t - x < windowMs rl"
      and "\<forall>t\<in>set ts. \<forall>t'\<in>set ts. t - t' < windowMs rl"
  shows "map is_allowed (fst (isAllowed_calls rl ts w)) =
           replicate (min (length ts) (maxAttempts rl - length (getAttempts rl w))) True @
           replicate (length ts - min (length ts) (maxAttempts rl - length (getAttempts rl w))) False"
  using assms
proof (induction ts arbitrary: w)
  case Nil
  show ?case by simp
next
  case (Cons now rest)
  have valid: "validAttempts rl now w = getAttempts rl w"
    using Cons.prems(1) by (simp add: validAttempts_def)
  have rest_pairwise: "\<forall>t\<in>set rest. \<forall>t'\<in>set rest. t - t' < windowMs rl"
    using Cons.prems(2) by simp
  show ?case
  proof (cases "maxAttempts rl \<le> length (getAttempts rl w)")
    case True
    let ?w' = "logSecurity ''warn'' (''Rate limit exceeded for '' @ action rl) w"
    have step: "isAllowed rl now w =
        (Denied (ceil_seconds (window_minus_age (windowMs rl) now
                   (math_min (validAttempts rl now w)))), ?w')"
      using True valid by (intro isAllowed_denied) simp
    have same: "getAttempts rl ?w' = getAttempts rl w"
      by (rule getAttempts_logSecurity)
    have "\<forall>x\<in>set (getAttempts rl ?w'). \<forall>t\<in>set rest. t - x < windowMs rl"
      using Cons.prems(1) same by simp
    from Cons.IH [OF this rest_pairwise]
    have "map is_allowed (fst (isAllowed_calls rl rest ?w')) = replicate (length rest) False"
      using True same by simp
    then show ?thesis
      using True step by (simp add: split_beta)
  next
    case False
    let ?w' = "saveAttempts rl (validAttempts rl now w @ [now]) w"
    have lt: "length (validAttempts rl now w) < maxAttempts rl"
      using False valid by simp
    have step: "isAllowed rl now w =
        (Allowed (int (maxAttempts rl) - int (length (validAttempts rl now w @ [now]))), ?w')"
      by (rule isAllowed_allowed [OF lt])
    have stored: "getAttempts rl ?w' = getAttempts rl w @ [now]"
      by (simp add: getAttempts_saveAttempts valid)
    have "\<forall>x\<in>set (getAttempts rl ?w'). \<forall>t\<in>set rest. t - x < windowMs rl"
      using Cons.prems stored by auto
    from Cons.IH [OF this rest_pairwise]
    have ih: "map is_allowed (fst (isAllowed_calls rl rest ?w')) =
        replicate (min (length rest) (maxAttempts rl - Suc (length (getAttempts rl w)))) True @
        replicate (length rest - min (length rest) (maxAttempts rl - Suc (length (getAttempts rl w)))) False"
      using stored by simp
    have m: "min (length (now # rest)) (maxAttempts rl - length (getAttempts rl w)) =
        Suc (min (length rest) (maxAttempts rl - Suc (length (getAttempts rl w))))"
      using False by auto
    show ?thesis
      unfolding m using step ih by (simp add: split_beta)
  qed
qed

lemma isAllowed_calls_length: "length (fst (isAllowed_calls rl ts w)) = length ts"
  by (induction ts arbitrary: w) (simp_all add: split_beta)

lemma isAllowed_calls_denied_positive:
  "Denied t \<in> set (fst (isAllowed_calls rl ts w)) \<Longrightarrow> js_positive t"
proof (induction ts arbitrary: w)
  case Nil
  then show ?case by simp
next
  case (Cons now rest)
  obtain r w' where step: "isAllowed rl now w = (r, w')"
    by (cases "isAllowed rl now w")
  from Cons.prems step
  have "r = Denied t \<or> Denied t \<in> set (fst (isAllowed_calls rl rest w'))"
    by (auto simp add: split_beta)
  then show ?case
  proof
    assume "r = Denied t"
    with step show ?thesis by (auto dest: isAllowed_denied_positive)
  next
    assume "Denied t \<in> set (fst (isAllowed_calls rl rest w'))"
    then show ?thesis by (rule Cons.IH)
  qed
qed

lemma count_replicate_True:
  "map f rs = replicate a True @ replicate b False \<Longrightarrow>
     length (filter f rs) = a \<and> length (filter (\<lambda>r. \<not> f r) rs) = b"
proof (induction rs arbitrary: a b)
  case Nil
  then show ?case by simp
next
  case (Cons r rs)
  show ?case
  proof (cases a)
    case 0
    with Cons.prems obtain b' where b: "b = Suc b'" and nf: "\<not> f r"
      and tl: "map f rs = replicate 0 True @ replicate b' False"
      by (cases b) auto
    from Cons.IH [OF tl] b nf 0 show ?thesis by simp
  next
    case (Suc a')
    with Cons.prems have fr: "f r" and tl: "map f rs = replicate a' True @ replicate b False"
      by auto
    from Cons.IH [OF tl] fr Suc show ?thesis by simp
  qed
qed

section \<open>The rate limiter: the stored list stays within the cap\<close>

lemma within_cap_empty: "getAttempts rl w = [] \<Longrightarrow> within_cap rl w"
  by (simp add: within_cap_def)

lemma within_cap_isAllowed:
  assumes "within_cap rl w"
  shows "within_cap rl (snd (isAllowed rl now w))"
proof (cases "maxAttempts rl \<le> length (validAttempts rl now w)")
  case True
  from isAllowed_denied [OF True] assms show ?thesis
    by (simp add: within_cap_def getAttempts_logSecurity)
next
  case False
  then have lt: "length (validAttempts rl now w) < maxAttempts rl" by simp
  from isAllowed_allowed [OF lt] lt show ?thesis
    by (simp add: within_cap_def getAttempts_saveAttempts)
qed

lemma within_cap_isAllowed_calls:
  "within_cap rl w \<Longrightarrow> within_cap rl (snd (isAllowed_calls rl ts w))"
proof (induction ts arbitrary: w)
  case Nil
  then show ?case by simp
next
  case (Cons now rest)
  from Cons.prems have "within_cap rl (snd (isAllowed rl now w))"
    by (rule within_cap_isAllowed)
  from Cons.IH [OF this] show ?case
    by (simp add: split_beta)
qed


section \<open>Claims about the rate limiter\<close>

text \<open>
  C1. A burst of \<open>N\<close> calls of \<^verbatim>\<open>isAllowed()\<close> for one action, all inside a span
  shorter than \<^verbatim>\<open>windowMs\<close> (any two call instants differ by less than the window)
  and starting from empty stored attempts: exactly \<open>min N maxAttempts\<close> calls are
  allowed, the other \<open>N - min N maxAttempts\<close> are denied, and every denied call
  reports a wait that is greater than 0.
\<close>

theorem burst_allows_exactly_min:
  assumes "getAttempts rl w = []"
      and "\<forall>t\<in>set ts. \<forall>t'\<in>set ts. t - t' < windowMs rl"
  shows "length (fst (isAllowed_calls rl ts w)) = length ts \<and>
         length (filter is_allowed (fst (isAllowed_calls rl ts w))) =
           min (length ts) (maxAttempts rl) \<and>
         length (filter (\<lambda>r. \<not> is_allowed r) (fst (isAllowed_calls rl ts w))) =
           length ts - min (length ts) (maxAttempts rl) \<and>
         (\<forall>t. Denied t \<in> set (fst (isAllowed_calls rl ts w)) \<longrightarrow> js_positive t)"
proof -
  have "\<forall>x\<in>set (getAttempts rl w). \<forall>t\<in>set ts. t - x < windowMs rl"
    using assms(1) by simp
  from isAllowed_calls_burst [OF this assms(2)]
  have "map is_allowed (fst (isAllowed_calls rl ts w)) =
          replicate (min (length ts) (maxAttempts rl)) True @
          replicate (length ts - min (length ts) (maxAttempts rl)) False"
    using assms(1) by simp
  from count_replicate_True [OF this]
  show ?thesis
    by (simp add: isAllowed_calls_length isAllowed_calls_denied_positive)
qed

theorem burst_allows_exactly_min_witness:
  "getAttempts documentLimiter2 fresh_world = [] \<and>
   list_all (\<lambda>t. list_all (\<lambda>t'. t - t' < windowMs documentLimiter2) [0, 50, 100])
     [0, 50, 100] \<and>
   fst (isAllowed_calls documentLimiter2 [0, 50, 100] fresh_world) =
     [Allowed 1, Allowed 0, Denied (Finite 60)] \<and>
   length (filter is_allowed (fst (isAllowed_calls documentLimiter2 [0, 50, 100] fresh_world))) =
     min (length [0, 50, 100 :: int]) (maxAttempts documentLimiter2)"
  using burst_allows_exactly_min [of documentLimiter2 fresh_world "[0, 50, 100]"]
  by (simp add: documentLimiter2_def fresh_world_def getAttempts_def isAllowed_def
      validAttempts_def saveAttempts_def logSecurity_def math_min_def ceil_div_def Let_def)

text \<open>
  C6 (as amended). A call of \<^verbatim>\<open>isAllowed()\<close> that is allowed persists the pruned
  attempt list with the current instant appended. A call that is denied persists
  nothing: the three stored items are what they were before the call.
\<close>

theorem isAllowed_persists_only_when_allowed:
  "(is_allowed (fst (isAllowed rl now w)) \<longrightarrow>
      attempts_item (snd (isAllowed rl now w)) (action rl) =
        Some (Parsed (validAttempts rl now w @ [now]))) \<and>
   (\<not> is_allowed (fst (isAllowed rl now w)) \<longrightarrow>
      attempts_item (snd (isAllowed rl now w)) = attempts_item w \<and>
      lockout_item (snd (isAllowed rl now w)) = lockout_item w \<and>
      violations_item (snd (isAllowed rl now w)) = violations_item w)"
  by (simp add: isAllowed_def Let_def saveAttempts_def logSecurity_def)

theorem isAllowed_persists_only_when_allowed_witness:
  "is_allowed (fst (isAllowed documentLimiter2 7 fresh_world)) \<and>
   attempts_item (snd (isAllowed documentLimiter2 7 fresh_world)) (action documentLimiter2) =
     Some (Parsed [7]) \<and>
   \<not> is_allowed (fst (isAllowed (documentLimiter2\<lparr>maxAttempts := 0\<rparr>) 7 fresh_world)) \<and>
   attempts_item (snd (isAllowed (documentLimiter2\<lparr>maxAttempts := 0\<rparr>) 7 fresh_world)) =
     attempts_item fresh_world"
  using isAllowed_persists_only_when_allowed [of documentLimiter2 7 fresh_world]
    isAllowed_persists_only_when_allowed [of "documentLimiter2\<lparr>maxAttempts := 0\<rparr>" 7 fresh_world]
  by (simp add: documentLimiter2_def fresh_world_def getAttempts_def isAllowed_def
      validAttempts_def saveAttempts_def logSecurity_def math_min_def ceil_div_def Let_def)

text \<open>
  C6 as stated fails: with a cap of 2, the calls at 0 and 50 are stored; the call at
  100 is denied and the stored list is still \<open>[0, 50]\<close>, not the pruned list with
  100 appended.
\<close>

theorem denied_call_does_not_append:
  "fst (isAllowed documentLimiter2 100
         (snd (isAllowed_calls documentLimiter2 [0, 50] fresh_world))) = Denied (Finite 60) \<and>
   attempts_item
     (snd (isAllowed documentLimiter2 100
            (snd (isAllowed_calls documentLimiter2 [0, 50] fresh_world))))
     (action documentLimiter2) = Some (Parsed [0, 50]) \<and>
   attempts_item
     (snd (isAllowed documentLimiter2 100
            (snd (isAllowed_calls documentLimiter2 [0, 50] fresh_world))))
     (action documentLimiter2) \<noteq>
   Some (Parsed
     (validAttempts documentLimiter2 100
        (snd (isAllowed_calls documentLimiter2 [0, 50] fresh_world)) @ [100]))"
  by (simp add: documentLimiter2_def fresh_world_def getAttempts_def isAllowed_def
      validAttempts_def saveAttempts_def logSecurity_def math_min_def ceil_div_def Let_def)

text \<open>
  C8. A denied call (with a cap of at least 1, on a stored list within the cap, as
  every list that \<^verbatim>\<open>isAllowed\<close> itself stored is) reports
  \<open>ceil ((windowMs - (now - oldest)) / 1000)\<close> seconds, where \<open>oldest\<close> is the least
  timestamp that survived the filter; a call made that many seconds later, or at any
  later instant, is allowed.
\<close>

theorem denied_wait_from_oldest:
  assumes "isAllowed rl now w = (Denied t, w')"
      and "0 < maxAttempts rl"
      and "within_cap rl w"
  shows "t = Finite (ceil_div (windowMs rl - (now - Min (set (validAttempts rl now w)))) 1000) \<and>
         (\<forall>now'. now + 1000 * ceil_div (windowMs rl - (now - Min (set (validAttempts rl now w)))) 1000
                   \<le> now' \<longrightarrow>
                 is_allowed (fst (isAllowed rl now' w')))"
proof -
  let ?valid = "validAttempts rl now w"
  let ?m = "Min (set ?valid)"
  let ?c = "ceil_div (windowMs rl - (now - ?m)) 1000"
  have full: "maxAttempts rl \<le> length ?valid"
  proof (rule ccontr)
    assume "\<not> maxAttempts rl \<le> length ?valid"
    then have "length ?valid < maxAttempts rl" by simp
    from isAllowed_allowed [OF this] assms(1) show False by simp
  qed
  from isAllowed_denied [OF full] assms(1)
  have t: "t = ceil_seconds (window_minus_age (windowMs rl) now (math_min ?valid))"
    and w': "w' = logSecurity ''warn'' (''Rate limit exceeded for '' @ action rl) w"
    by simp_all
  from full assms(2) obtain y ys where ne: "?valid = y # ys"
    by (cases ?valid) auto
  have first: "t = Finite ?c"
    using t ne by (simp add: math_min_Cons)
  have "?m \<in> set ?valid"
    using ne by (intro Min_in) simp_all
  then have m_stored: "?m \<in> set (getAttempts rl w)"
    by (simp add: validAttempts_def)
  have stored: "getAttempts rl w' = getAttempts rl w"
    by (simp add: w' getAttempts_logSecurity)
  have second: "is_allowed (fst (isAllowed rl now' w'))" if late: "now + 1000 * ?c \<le> now'" for now'
  proof -
    have "windowMs rl - (now - ?m) \<le> 1000 * ?c"
      by (rule ceil_div_covers)
    with late have "\<not> now' - ?m < windowMs rl"
      by simp
    with m_stored
    have "length (filter (\<lambda>x. now' - x < windowMs rl) (getAttempts rl w))
            < length (getAttempts rl w)"
      by (intro length_filter_less)
    then have "length (validAttempts rl now' w') < maxAttempts rl"
      using assms(3) by (simp add: validAttempts_def stored within_cap_def)
    from isAllowed_allowed [OF this] show ?thesis
      by simp
  qed
  from first second show ?thesis
    by blast
qed

theorem denied_wait_from_oldest_witness:
  "isAllowed documentLimiter2 100 two_clicks_world =
     (Denied (Finite 60), logSecurity ''warn'' ''Rate limit exceeded for document_click'' two_clicks_world) \<and>
   within_cap documentLimiter2 two_clicks_world \<and>
   validAttempts documentLimiter2 100 two_clicks_world = [0, 50] \<and>
   is_allowed (fst (isAllowed documentLimiter2 60100
     (logSecurity ''warn'' ''Rate limit exceeded for document_click'' two_clicks_world)))"
proof -
  have run: "isAllowed documentLimiter2 100 two_clicks_world =
     (Denied (Finite 60), logSecurity ''warn'' ''Rate limit exceeded for document_click'' two_clicks_world)"
    by (simp add: two_clicks_world_def documentLimiter2_def fresh_world_def getAttempts_def
        isAllowed_def validAttempts_def saveAttempts_def logSecurity_def math_min_def
        ceil_div_def Let_def)
  have cap: "within_cap documentLimiter2 two_clicks_world"
    by (simp add: within_cap_def two_clicks_world_def documentLimiter2_def fresh_world_def
        getAttempts_def isAllowed_def validAttempts_def saveAttempts_def Let_def)
  have pos: "0 < maxAttempts documentLimiter2"
    by (simp add: documentLimiter2_def)
  have valid: "validAttempts documentLimiter2 100 two_clicks_world = [0, 50]"
    by (simp add: two_clicks_world_def documentLimiter2_def fresh_world_def getAttempts_def
        isAllowed_def validAttempts_def saveAttempts_def Let_def)
  from denied_wait_from_oldest [OF run pos cap]
  have "is_allowed (fst (isAllowed documentLimiter2 60100
     (logSecurity ''warn'' ''Rate limit exceeded for document_click'' two_clicks_world)))"
    by (simp add: valid ceil_div_def documentLimiter2_def)
  with run cap valid show ?thesis
    by blast
qed

section \<open>The lockout manager: single calls\<close>

lemma getLockout_lockout:
  "getLockout (lockout r now w) =
     Some \<lparr>until = now + lockoutDuration, lock_reason = r, lock_timestamp = now\<rparr>"
  by (simp add: getLockout_def lockout_def logSecurity_def)

lemma lockout_item_saveViolations: "lockout_item (saveViolations vs w) = lockout_item w"
  by (simp add: saveViolations_def)

lemma recordViolation_locks:
  assumes "maxFailedAttempts \<le> length (recentViolations r now w)"
  shows "recordViolation r now w =
           (True, lockout r now (saveViolations (recentViolations r now w) w))"
  using assms by (simp add: recordViolation_def Let_def)

lemma recordViolation_below:
  assumes "length (recentViolations r now w) < maxFailedAttempts"
  shows "recordViolation r now w = (False, saveViolations (recentViolations r now w) w)"
  using assms by (simp add: recordViolation_def Let_def)

lemma isLockedOut_active:
  assumes "getLockout w = Some l" and "now < until l"
  shows "isLockedOut now w = (Locked (ceil_div (until l - now) 1000) (lock_reason l), w)"
  using assms by (simp add: isLockedOut_def)

lemma isLockedOut_expired:
  assumes "getLockout w = Some l" and "until l \<le> now"
  shows "isLockedOut now w = (Unlocked, clearLockout w)"
  using assms by (simp add: isLockedOut_def)

lemma isLockedOut_none:
  assumes "getLockout w = None"
  shows "isLockedOut now w = (BareFalse, w)"
  using assms by (simp add: isLockedOut_def)

lemma getLockout_clearLockout: "getLockout (clearLockout w) = None"
  by (simp add: getLockout_def clearLockout_def)

lemma isLockedOut_calls_active:
  assumes "getLockout w = Some l" and "\<forall>t\<in>set ts. t < until l"
  shows "isLockedOut_calls ts w =
           (map (\<lambda>t. Locked (ceil_div (until l - t) 1000) (lock_reason l)) ts, w)"
  using assms(2)
proof (induction ts)
  case Nil
  show ?case by simp
next
  case (Cons now rest)
  then have "now < until l" by simp
  from isLockedOut_active [OF assms(1) this] Cons show ?case
    by simp
qed

lemma isLockedOut_calls_none:
  assumes "getLockout w = None"
  shows "isLockedOut_calls ts w = (replicate (length ts) BareFalse, w)"
  by (induction ts) (simp_all add: isLockedOut_none [OF assms])


section \<open>Claims about the lockout manager\<close>

text \<open>
  C2. When \<^verbatim>\<open>recordViolation(reason)\<close> finds, after appending the new violation and
  pruning those older than 300000 ms, at least \<^verbatim>\<open>maxFailedAttempts\<close> = 5 violations,
  the call returns true and installs a lockout with
  \<open>until = now + lockoutDuration\<close>. Every call of \<^verbatim>\<open>isLockedOut()\<close> made after it
  at an instant before \<open>until\<close> (with no other operation in between) answers
  locked with \<open>timeRemaining = ceil ((until - t) / 1000)\<close> and the triggering reason,
  and leaves the state as it is; asked at the instant of the lockout itself, the
  remaining time is the whole duration, 300 seconds.
\<close>

theorem threshold_violation_installs_lockout:
  assumes "maxFailedAttempts \<le> length (recentViolations r now w)"
  shows "fst (recordViolation r now w) = True \<and>
         getLockout (snd (recordViolation r now w)) =
           Some \<lparr>until = now + lockoutDuration, lock_reason = r, lock_timestamp = now\<rparr> \<and>
         (\<forall>ts. (\<forall>t\<in>set ts. t < now + lockoutDuration) \<longrightarrow>
            isLockedOut_calls ts (snd (recordViolation r now w)) =
              (map (\<lambda>t. Locked (ceil_div (now + lockoutDuration - t) 1000) r) ts,
               snd (recordViolation r now w))) \<and>
         fst (isLockedOut now (snd (recordViolation r now w))) = Locked 300 r"
proof -
  let ?w' = "lockout r now (saveViolations (recentViolations r now w) w)"
  let ?l = "\<lparr>until = now + lockoutDuration, lock_reason = r, lock_timestamp = now\<rparr>"
  have run: "recordViolation r now w = (True, ?w')"
    by (rule recordViolation_locks [OF assms])
  have installed: "getLockout ?w' = Some ?l"
    by (rule getLockout_lockout)
  have later: "isLockedOut_calls ts ?w' =
      (map (\<lambda>t. Locked (ceil_div (now + lockoutDuration - t) 1000) r) ts, ?w')"
    if "\<forall>t\<in>set ts. t < now + lockoutDuration" for ts
    using isLockedOut_calls_active [OF installed, of ts] that by simp
  have "now < until ?l"
    by (simp add: lockoutDuration_def)
  from isLockedOut_active [OF installed this]
  have at_once: "fst (isLockedOut now ?w') = Locked 300 r"
    by (simp add: lockoutDuration_def ceil_div_def)
  from run installed later at_once show ?thesis
    by simp
qed

theorem threshold_violation_installs_lockout_witness:
  "fst (recordViolation_calls four_violations fresh_world) = [False, False, False, False] \<and>
   length (recentViolations ''e'' 4000 (snd (recordViolation_calls four_violations fresh_world))) = 5 \<and>
   fst (recordViolation ''e'' 4000 (snd (recordViolation_calls four_violations fresh_world))) \<and>
   isLockedOut_calls [4000, 4001, 150000, 303999]
       (snd (recordViolation ''e'' 4000 (snd (recordViolation_calls four_violations fresh_world)))) =
     ([Locked 300 ''e'', Locked 300 ''e'', Locked 154 ''e'', Locked 1 ''e''],
      snd (recordViolation ''e'' 4000 (snd (recordViolation_calls four_violations fresh_world))))"
proof -
  let ?w4 = "snd (recordViolation_calls four_violations fresh_world)"
  have four: "fst (recordViolation_calls four_violations fresh_world) = [False, False, False, False]"
    by (simp add: four_violations_def fresh_world_def recordViolation_def recentViolations_def
        getViolations_def saveViolations_def maxFailedAttempts_def Let_def)
  have five: "length (recentViolations ''e'' 4000 ?w4) = 5"
    by (simp add: four_violations_def fresh_world_def recordViolation_def recentViolations_def
        getViolations_def saveViolations_def maxFailedAttempts_def Let_def)
  then have hyp: "maxFailedAttempts \<le> length (recentViolations ''e'' 4000 ?w4)"
    by (simp add: maxFailedAttempts_def)
  note inst = threshold_violation_installs_lockout [OF hyp]
  from inst have returned: "fst (recordViolation ''e'' 4000 ?w4)"
    by simp
  from inst have "\<forall>ts. (\<forall>t\<in>set ts. t < 4000 + lockoutDuration) \<longrightarrow>
      isLockedOut_calls ts (snd (recordViolation ''e'' 4000 ?w4)) =
        (map (\<lambda>t. Locked (ceil_div (4000 + lockoutDuration - t) 1000) ''e'') ts,
         snd (recordViolation ''e'' 4000 ?w4))"
    by blast
  from spec [OF this, of "[4000, 4001, 150000, 303999]"]
  have asked: "isLockedOut_calls [4000, 4001, 150000, 303999] (snd (recordViolation ''e'' 4000 ?w4)) =
      (map (\<lambda>t. Locked (ceil_div (4000 + lockoutDuration - t) 1000) ''e'')
         [4000, 4001, 150000, 303999],
       snd (recordViolation ''e'' 4000 ?w4))"
    by (simp add: lockoutDuration_def)
  have times: "map (\<lambda>t. Locked (ceil_div (4000 + lockoutDuration - t) 1000) ''e'')
      [4000, 4001, 150000, 303999] =
      [Locked 300 ''e'', Locked 300 ''e'', Locked 154 ''e'', Locked 1 ''e'']"
    by (simp add: lockoutDuration_def ceil_div_def)
  from four five returned asked [unfolded times] show ?thesis
    by blast
qed

text \<open>
  C3 (as amended). While a lockout is active, \<^verbatim>\<open>recordViolation(reason)\<close> leaves the
  stored lockout as it is when fewer than \<^verbatim>\<open>maxFailedAttempts\<close> violations, the new
  one included, lie within the trailing 300000 ms, and returns false. When at least
  that many do, the call returns true and overwrites the lockout with
  \<open>until = now + lockoutDuration\<close> and the new reason.
\<close>

theorem recordViolation_while_locked:
  assumes "getLockout w = Some l" and "now < until l"
  shows "(length (recentViolations r now w) < maxFailedAttempts \<longrightarrow>
            fst (recordViolation r now w) = False \<and>
            lockout_item (snd (recordViolation r now w)) = lockout_item w) \<and>
         (maxFailedAttempts \<le> length (recentViolations r now w) \<longrightarrow>
            fst (recordViolation r now w) = True \<and>
            getLockout (snd (recordViolation r now w)) =
              Some \<lparr>until = now + lockoutDuration, lock_reason = r, lock_timestamp = now\<rparr>)"
proof (intro conjI impI)
  assume below: "length (recentViolations r now w) < maxFailedAttempts"
  from recordViolation_below [OF below]
  show "fst (recordViolation r now w) = False"
    and "lockout_item (snd (recordViolation r now w)) = lockout_item w"
    by (simp_all add: lockout_item_saveViolations)
next
  assume reached: "maxFailedAttempts \<le> length (recentViolations r now w)"
  from recordViolation_locks [OF reached]
  show "fst (recordViolation r now w) = True"
    and "getLockout (snd (recordViolation r now w)) =
      Some \<lparr>until = now + lockoutDuration, lock_reason = r, lock_timestamp = now\<rparr>"
    by (simp_all add: getLockout_lockout)
qed

lemma locked_world_lockout:
  "getLockout locked_world = Some \<lparr>until = 304000, lock_reason = ''e'', lock_timestamp = 4000\<rparr>"
  by (simp add: locked_world_def five_violations_def fresh_world_def recordViolation_def
      recentViolations_def getViolations_def saveViolations_def maxFailedAttempts_def
      lockout_def logSecurity_def lockoutDuration_def getLockout_def Let_def)

lemma locked_world_violations:
  "getViolations locked_world =
     [\<lparr>timestamp = 0, reason = ''a''\<rparr>, \<lparr>timestamp = 1000, reason = ''b''\<rparr>,
      \<lparr>timestamp = 2000, reason = ''c''\<rparr>, \<lparr>timestamp = 3000, reason = ''d''\<rparr>,
      \<lparr>timestamp = 4000, reason = ''e''\<rparr>]"
  by (simp add: locked_world_def five_violations_def fresh_world_def recordViolation_def
      recentViolations_def getViolations_def saveViolations_def maxFailedAttempts_def
      lockout_def logSecurity_def lockoutDuration_def Let_def)

theorem recordViolation_while_locked_witness:
  "fst (isLockedOut 303500 locked_world) = Locked 1 ''e'' \<and>
   length (recentViolations ''f'' 303500 locked_world) = 2 \<and>
   fst (recordViolation ''f'' 303500 locked_world) = False \<and>
   lockout_item (snd (recordViolation ''f'' 303500 locked_world)) = lockout_item locked_world \<and>
   length (recentViolations ''f'' 10000 locked_world) = 6 \<and>
   fst (recordViolation ''f'' 10000 locked_world) = True \<and>
   getLockout (snd (recordViolation ''f'' 10000 locked_world)) =
     Some \<lparr>until = 310000, lock_reason = ''f'', lock_timestamp = 10000\<rparr>"
proof -
  let ?l = "\<lparr>until = 304000, lock_reason = ''e'', lock_timestamp = 4000\<rparr>"
  have late: "303500 < until ?l" and early: "10000 < until ?l"
    by simp_all
  have asked: "fst (isLockedOut 303500 locked_world) = Locked 1 ''e''"
    using isLockedOut_active [OF locked_world_lockout late] by (simp add: ceil_div_def)
  have two: "length (recentViolations ''f'' 303500 locked_world) = 2"
    by (simp add: recentViolations_def locked_world_violations)
  have six: "length (recentViolations ''f'' 10000 locked_world) = 6"
    by (simp add: recentViolations_def locked_world_violations)
  from recordViolation_while_locked [OF locked_world_lockout late, of "''f''"] two
  have kept: "fst (recordViolation ''f'' 303500 locked_world) = False \<and>
      lockout_item (snd (recordViolation ''f'' 303500 locked_world)) = lockout_item locked_world"
    by (simp add: maxFailedAttempts_def)
  from recordViolation_while_locked [OF locked_world_lockout early, of "''f''"] six
  have replaced: "fst (recordViolation ''f'' 10000 locked_world) = True \<and>
      getLockout (snd (recordViolation ''f'' 10000 locked_world)) =
        Some \<lparr>until = 310000, lock_reason = ''f'', lock_timestamp = 10000\<rparr>"
    by (simp add: maxFailedAttempts_def lockoutDuration_def)
  from asked two six kept replaced show ?thesis
    by blast
qed

text \<open>
  C3 as stated fails: after five violations at 0, 1000, ..., 4000 ms the lockout runs
  until 304000 with reason \<open>e\<close>; a sixth violation at 10000 ms, while that lockout
  is active, replaces it by one that runs until 310000 with reason \<open>f\<close>.
\<close>

theorem violation_while_locked_extends_lockout:
  "fst (isLockedOut 10000 locked_world) = Locked 294 ''e'' \<and>
   getLockout locked_world =
     Some \<lparr>until = 304000, lock_reason = ''e'', lock_timestamp = 4000\<rparr> \<and>
   getLockout (snd (recordViolation ''f'' 10000 locked_world)) =
     Some \<lparr>until = 310000, lock_reason = ''f'', lock_timestamp = 10000\<rparr> \<and>
   getLockout (snd (recordViolation ''f'' 10000 locked_world)) \<noteq> getLockout locked_world"
proof -
  let ?l = "\<lparr>until = 304000, lock_reason = ''e'', lock_timestamp = 4000\<rparr>"
  have "10000 < until ?l"
    by simp
  from isLockedOut_active [OF locked_world_lockout this]
  have asked: "fst (isLockedOut 10000 locked_world) = Locked 294 ''e''"
    by (simp add: ceil_div_def)
  have "maxFailedAttempts \<le> length (recentViolations ''f'' 10000 locked_world)"
    by (simp add: recentViolations_def locked_world_violations maxFailedAttempts_def)
  from recordViolation_locks [OF this]
  have replaced: "getLockout (snd (recordViolation ''f'' 10000 locked_world)) =
      Some \<lparr>until = 310000, lock_reason = ''f'', lock_timestamp = 10000\<rparr>"
    by (simp add: getLockout_lockout lockoutDuration_def)
  from asked locked_world_lockout replaced show ?thesis
    by simp
qed

text \<open>
  C7. When the stored lockout has run out (\<open>until \<le> now\<close>), \<^verbatim>\<open>isLockedOut()\<close>
  answers \<^verbatim>\<open>{ locked: false }\<close> and removes both the lockout item and the violation
  history. Every further call, with nothing else in between, finds no lockout:
  its answer has a falsy \<^verbatim>\<open>locked\<close> and the state stays as the first call left it.
\<close>

theorem expired_lockout_is_cleared:
  assumes "getLockout w = Some l" and "until l \<le> now"
  shows "fst (isLockedOut now w) = Unlocked \<and>
         lockout_item (snd (isLockedOut now w)) = None \<and>
         violations_item (snd (isLockedOut now w)) = None \<and>
         (\<forall>ts. snd (isLockedOut_calls ts (snd (isLockedOut now w))) = snd (isLockedOut now w) \<and>
               (\<forall>res\<in>set (fst (isLockedOut_calls ts (snd (isLockedOut now w)))). \<not> locked res))"
proof -
  have run: "isLockedOut now w = (Unlocked, clearLockout w)"
    by (rule isLockedOut_expired [OF assms])
  have cleared: "lockout_item (clearLockout w) = None" "violations_item (clearLockout w) = None"
    by (simp_all add: clearLockout_def)
  have again: "isLockedOut_calls ts (clearLockout w) =
      (replicate (length ts) BareFalse, clearLockout w)" for ts
    by (rule isLockedOut_calls_none [OF getLockout_clearLockout])
  show ?thesis
    by (simp add: run cleared again)
qed

theorem expired_lockout_is_cleared_witness:
  "fst (isLockedOut 10 expired_world) = Unlocked \<and>
   lockout_item (snd (isLockedOut 10 expired_world)) = None \<and>
   violations_item (snd (isLockedOut 10 expired_world)) = None \<and>
   snd (isLockedOut_calls [11, 12] (snd (isLockedOut 10 expired_world))) =
     snd (isLockedOut 10 expired_world) \<and>
   fst (isLockedOut_calls [11, 12] (snd (isLockedOut 10 expired_world))) = [BareFalse, BareFalse]"
proof -
  let ?l = "\<lparr>until = 5, lock_reason = ''r'', lock_timestamp = 0\<rparr>"
  have stored: "getLockout expired_world = Some ?l"
    by (simp add: expired_world_def fresh_world_def getLockout_def)
  have passed: "until ?l \<le> 10"
    by simp
  note inst = expired_lockout_is_cleared [OF stored passed]
  from inst have first: "fst (isLockedOut 10 expired_world) = Unlocked \<and>
      lockout_item (snd (isLockedOut 10 expired_world)) = None \<and>
      violations_item (snd (isLockedOut 10 expired_world)) = None"
    by blast
  from inst have "snd (isLockedOut_calls [11, 12] (snd (isLockedOut 10 expired_world))) =
      snd (isLockedOut 10 expired_world)"
    by blast
  moreover have "fst (isLockedOut_calls [11, 12] (snd (isLockedOut 10 expired_world))) =
      [BareFalse, BareFalse]"
    by (simp add: expired_world_def fresh_world_def isLockedOut_def getLockout_def
        clearLockout_def)
  ultimately show ?thesis
    using first by blast
qed

text \<open>
  C10 (as amended). With no usable lockout item (absent, or text that does not parse)
  \<^verbatim>\<open>isLockedOut()\<close> returns the bare boolean \<^verbatim>\<open>false\<close>; with an item that has run out
  it returns the object \<^verbatim>\<open>{ locked: false }\<close>. The two results differ, and a caller
  that tests the \<^verbatim>\<open>locked\<close> property of the result, as every caller in the source does,
  sees a falsy value in both cases.
\<close>

theorem unlocked_result_has_two_shapes:
  assumes "lockout_item w1 = None \<or> lockout_item w1 = Some Unparseable"
      and "lockout_item w2 = Some (Parsed l)" and "until l \<le> now2"
  shows "isLockedOut now1 w1 = (BareFalse, w1) \<and>
         fst (isLockedOut now2 w2) = Unlocked \<and>
         fst (isLockedOut now1 w1) \<noteq> fst (isLockedOut now2 w2) \<and>
         locked (fst (isLockedOut now1 w1)) = False \<and>
         locked (fst (isLockedOut now2 w2)) = False"
proof -
  have "getLockout w1 = None"
    using assms(1) by (auto simp: getLockout_def)
  then have one: "isLockedOut now1 w1 = (BareFalse, w1)"
    by (rule isLockedOut_none)
  have "getLockout w2 = Some l"
    using assms(2) by (simp add: getLockout_def)
  from isLockedOut_expired [OF this assms(3)]
  have two: "fst (isLockedOut now2 w2) = Unlocked"
    by simp
  from one two show ?thesis
    by simp
qed

theorem unlocked_result_has_two_shapes_witness:
  "isLockedOut 10 fresh_world = (BareFalse, fresh_world) \<and>
   fst (isLockedOut 10 expired_world) = Unlocked \<and>
   locked (fst (isLockedOut 10 fresh_world)) = locked (fst (isLockedOut 10 expired_world))"
proof -
  let ?l = "\<lparr>until = 5, lock_reason = ''r'', lock_timestamp = 0\<rparr>"
  have absent: "lockout_item fresh_world = None \<or> lockout_item fresh_world = Some Unparseable"
    by (simp add: fresh_world_def)
  have stored: "lockout_item expired_world = Some (Parsed ?l)"
    by (simp add: expired_world_def fresh_world_def)
  have passed: "until ?l \<le> 10"
    by simp
  from unlocked_result_has_two_shapes [OF absent stored passed, of 10]
  show ?thesis
    by simp
qed

text \<open>
  C10 as stated fails in its last part: the truthiness of the two results differs.
  The bare \<^verbatim>\<open>false\<close> is falsy, the object \<^verbatim>\<open>{ locked: false }\<close> is truthy.
\<close>

theorem unlocked_results_differ_in_truthiness:
  "fst (isLockedOut 10 fresh_world) = BareFalse \<and>
   fst (isLockedOut 10 expired_world) = Unlocked \<and>
   truthy (fst (isLockedOut 10 fresh_world)) \<noteq> truthy (fst (isLockedOut 10 expired_world))"
  by (simp add: expired_world_def fresh_world_def isLockedOut_def getLockout_def)

section \<open>The event queue: what a run of log calls does\<close>

lemma logSecurityEventToServer_step:
  assumes "enabled p"
  shows "enabled (snd (logSecurityEventToServer br ty md p)) \<and>
         (requests (snd (logSecurityEventToServer br ty md p)) =
            requests p @ [eventQueue p @ [make_event p br ty md]] \<and>
          eventQueue (snd (logSecurityEventToServer br ty md p)) = []
          \<or>
          requests (snd (logSecurityEventToServer br ty md p)) = requests p \<and>
          eventQueue (snd (logSecurityEventToServer br ty md p)) =
            eventQueue p @ [make_event p br ty md])"
  using assms
  by (simp add: logSecurityEventToServer_def flushEvents_start_def scheduleFlush_def Let_def)

lemma log_calls_keep_events:
  assumes "enabled p"
  shows "\<exists>later. requests (log_calls cs p) = requests p @ later \<and>
           concat later @ eventQueue (log_calls cs p) = eventQueue p @ events_of_calls cs p"
  using assms
proof (induction cs arbitrary: p)
  case Nil
  show ?case by simp
next
  case (Cons c cs)
  obtain br ty md where c: "c = (br, ty, md)"
    by (cases c)
  let ?e = "make_event p br ty md"
  let ?p' = "snd (logSecurityEventToServer br ty md p)"
  from logSecurityEventToServer_step [OF Cons.prems, of br ty md]
  have en: "enabled ?p'"
    and step: "requests ?p' = requests p @ [eventQueue p @ [?e]] \<and> eventQueue ?p' = []
       \<or> requests ?p' = requests p \<and> eventQueue ?p' = eventQueue p @ [?e]"
    by blast+
  from Cons.IH [OF en] obtain later where
    reqs: "requests (log_calls cs ?p') = requests ?p' @ later"
    and kept: "concat later @ eventQueue (log_calls cs ?p') = eventQueue ?p' @ events_of_calls cs ?p'"
    by blast
  from step show ?case
  proof
    assume flushed: "requests ?p' = requests p @ [eventQueue p @ [?e]] \<and> eventQueue ?p' = []"
    have "requests (log_calls (c # cs) p) = requests p @ ((eventQueue p @ [?e]) # later)"
      using reqs flushed by (simp add: c)
    moreover have "concat ((eventQueue p @ [?e]) # later) @ eventQueue (log_calls (c # cs) p) =
        eventQueue p @ events_of_calls (c # cs) p"
      using kept flushed by (simp add: c)
    ultimately show ?thesis
      by blast
  next
    assume queued: "requests ?p' = requests p \<and> eventQueue ?p' = eventQueue p @ [?e]"
    have "requests (log_calls (c # cs) p) = requests p @ later"
      using reqs queued by (simp add: c)
    moreover have "concat later @ eventQueue (log_calls (c # cs) p) =
        eventQueue p @ events_of_calls (c # cs) p"
      using kept queued by (simp add: c)
    ultimately show ?thesis
      by blast
  qed
qed


section \<open>Claims about the event queue\<close>

text \<open>
  C4. A flush of a non-empty queue hands to the network, as one batch, the events
  that the queue holds when the flush starts, in their order, and the queue is empty
  when the function suspends at the network call. A flush that the size trigger
  starts does so with the queue as it is right after the push. Whatever is logged
  while the send is in flight, the batch stays what it was, and the events logged
  meanwhile are, in their order, in later batches or still queued.
\<close>

theorem flush_sends_snapshot:
  assumes "eventQueue p \<noteq> []" and "enabled p"
  shows "fst (flushEvents_start p) = Some (eventQueue p) \<and>
         eventQueue (snd (flushEvents_start p)) = [] \<and>
         requests (snd (flushEvents_start p)) = requests p @ [eventQueue p] \<and>
         (batchSize p \<le> Suc (length (eventQueue p)) \<longrightarrow>
            logSecurityEventToServer br ty md p =
              flushEvents_start
                (p\<lparr>eventCounter := Suc (eventCounter p),
                   eventQueue := eventQueue p @ [make_event p br ty md]\<rparr>)) \<and>
         (\<forall>cs. \<exists>later.
            requests (log_calls cs (snd (flushEvents_start p))) =
              requests p @ [eventQueue p] @ later \<and>
            concat later @ eventQueue (log_calls cs (snd (flushEvents_start p))) =
              events_of_calls cs (snd (flushEvents_start p)))"
proof -
  let ?p1 = "snd (flushEvents_start p)"
  have start: "flushEvents_start p =
      (Some (eventQueue p),
       p\<lparr>eventQueue := [], flushTimer := False, requests := requests p @ [eventQueue p]\<rparr>)"
    using assms(1) by (simp add: flushEvents_start_def Let_def)
  have size: "logSecurityEventToServer br ty md p =
      flushEvents_start
        (p\<lparr>eventCounter := Suc (eventCounter p),
           eventQueue := eventQueue p @ [make_event p br ty md]\<rparr>)"
    if "batchSize p \<le> Suc (length (eventQueue p))"
    using that assms(2) by (simp add: logSecurityEventToServer_def Let_def)
  have en: "enabled ?p1"
    using assms(2) by (simp add: start)
  have later: "\<exists>later.
      requests (log_calls cs ?p1) = requests p @ [eventQueue p] @ later \<and>
      concat later @ eventQueue (log_calls cs ?p1) = events_of_calls cs ?p1" for cs
    using log_calls_keep_events [OF en, of cs] by (simp add: start)
  from start size later show ?thesis
    by simp
qed

lemma three_clicks:
  "logSecurityEventToServer browser0 ''document_clicked'' [(''label'', JStr ''doc'')]
     (log_calls [click, click] logging0) =
   (Some [event0 1, event0 2, event0 3],
    logging0\<lparr>eventCounter := 3, requests := [[event0 1, event0 2, event0 3]]\<rparr>)"
  by (simp add: click_def logging0_def browser0_def event0_def logSecurityEventToServer_def
      flushEvents_start_def scheduleFlush_def make_event_def Let_def)

lemma two_clicks:
  "eventQueue (log_calls [click, click] logging0) = [event0 1, event0 2] \<and>
   enabled (log_calls [click, click] logging0) \<and>
   batchSize (log_calls [click, click] logging0) = 3 \<and>
   requests (log_calls [click, click] logging0) = []"
  by (simp add: click_def logging0_def browser0_def event0_def logSecurityEventToServer_def
      flushEvents_start_def scheduleFlush_def make_event_def Let_def)

theorem flush_sends_snapshot_witness:
  "fst (flushEvents_start (log_calls [click, click] logging0)) = Some [event0 1, event0 2] \<and>
   eventQueue (snd (flushEvents_start (log_calls [click, click] logging0))) = [] \<and>
   requests (snd (flushEvents_start (log_calls [click, click] logging0))) =
     [[event0 1, event0 2]] \<and>
   logSecurityEventToServer browser0 ''document_clicked'' [(''label'', JStr ''doc'')]
       (log_calls [click, click] logging0) =
     (Some [event0 1, event0 2, event0 3],
      logging0\<lparr>eventCounter := 3, requests := [[event0 1, event0 2, event0 3]]\<rparr>) \<and>
   (\<exists>later.
      requests (log_calls [click] (snd (flushEvents_start (log_calls [click, click] logging0)))) =
        [[event0 1, event0 2]] @ later \<and>
      concat later @
        eventQueue (log_calls [click] (snd (flushEvents_start (log_calls [click, click] logging0)))) =
        [event0 3])"
proof -
  let ?p = "log_calls [click, click] logging0"
  have ne: "eventQueue ?p \<noteq> []" and en: "enabled ?p"
    using two_clicks by simp_all
  note inst = flush_sends_snapshot [OF ne en]
  have ev3: "events_of_calls [click] (snd (flushEvents_start ?p)) = [event0 3]"
    by (simp add: click_def logging0_def browser0_def event0_def logSecurityEventToServer_def
        flushEvents_start_def scheduleFlush_def make_event_def Let_def)
  from inst have a: "fst (flushEvents_start ?p) = Some [event0 1, event0 2]"
    and b: "eventQueue (snd (flushEvents_start ?p)) = []"
    and c: "requests (snd (flushEvents_start ?p)) = [[event0 1, event0 2]]"
    using two_clicks by simp_all
  from inst have "\<forall>cs. \<exists>later.
      requests (log_calls cs (snd (flushEvents_start ?p))) =
        requests ?p @ [eventQueue ?p] @ later \<and>
      concat later @ eventQueue (log_calls cs (snd (flushEvents_start ?p))) =
        events_of_calls cs (snd (flushEvents_start ?p))"
    by blast
  from spec [OF this, of "[click]"]
  have d: "\<exists>later.
      requests (log_calls [click] (snd (flushEvents_start ?p))) = [[event0 1, event0 2]] @ later \<and>
      concat later @ eventQueue (log_calls [click] (snd (flushEvents_start ?p))) = [event0 3]"
    using two_clicks by (simp add: ev3)
  from a b c three_clicks d show ?thesis
    by blast
qed

text \<open>
  C5. When the delivery of a batch of \<open>K\<close> events fails (a response whose status
  is not in 200..299, or an exception of the transport): for \<open>K < 100\<close> the batch
  goes back to the front of the queue, its events in their order and ahead of
  everything the queue holds by then; for \<open>K \<ge> 100\<close> the queue is left as it is and
  the batch is gone. Nothing else of the logger's state changes.
\<close>

theorem failed_batch_requeued_below_ceiling:
  assumes "outcome = Threw \<or> (\<exists>status. outcome = Responded status \<and> \<not> response_ok status)"
  shows "flushEvents_resume outcome batch p =
           p\<lparr>eventQueue := (if length batch < 100 then batch @ eventQueue p else eventQueue p)\<rparr>"
  using assms by (auto simp: flushEvents_resume_def)

theorem failed_batch_requeued_below_ceiling_witness:
  "\<not> response_ok 500 \<and>
   eventQueue (flushEvents_resume (Responded 500) [event0 1, event0 2]
      (logging0\<lparr>eventQueue := [event0 3]\<rparr>)) = [event0 1, event0 2, event0 3] \<and>
   eventQueue (flushEvents_resume Threw [event0 1, event0 2]
      (logging0\<lparr>eventQueue := [event0 3]\<rparr>)) = [event0 1, event0 2, event0 3] \<and>
   eventQueue (flushEvents_resume Threw (replicate 100 (event0 1))
      (logging0\<lparr>eventQueue := [event0 3]\<rparr>)) = [event0 3]"
proof -
  have bad: "\<not> response_ok 500"
    by (simp add: response_ok_def)
  then have h1: "Responded 500 = Threw \<or>
      (\<exists>status. Responded 500 = Responded status \<and> \<not> response_ok status)"
    by simp
  have h2: "Threw = Threw \<or> (\<exists>status. Threw = Responded status \<and> \<not> response_ok status)"
    by simp
  from failed_batch_requeued_below_ceiling [OF h1, of "[event0 1, event0 2]"]
    failed_batch_requeued_below_ceiling [OF h2, of "[event0 1, event0 2]"]
    failed_batch_requeued_below_ceiling [OF h2, of "replicate 100 (event0 1)"]
    bad
  show ?thesis
    by simp
qed

section \<open>The event classifier: what it reads and what it writes\<close>

lemma event_at_append:
  "event_at h ev = Some e \<Longrightarrow> event_at (h @ [obj]) ev = Some e"
  by (auto simp: event_at_def nth_append split: if_splits)

lemma array_at_last: "array_at (h @ [ArrayObject xs]) (length h) = Some xs"
  by (simp add: array_at_def)

lemma push_last: "push (length h) x (h @ [ArrayObject xs]) = h @ [ArrayObject (xs @ [x])]"
  by (simp add: push_def array_at_last)

lemma check_pattern_last:
  assumes "event_at h ev = Some e"
  shows "check_pattern cond flag marks ev (length h) (h @ [ArrayObject fs], s) =
           (h @ [ArrayObject (fs @ (if cond e then [flag] else []))], s \<or> marks \<and> cond e)"
  using event_at_append [OF assms, of "ArrayObject fs"]
  by (simp add: check_pattern_def push_last)

lemma checkSecurityPatterns_result:
  assumes "event_at h ev = Some e"
  shows "checkSecurityPatterns ev h =
           Some (\<lparr>isSuspicious = suspicious_of e, flags = length h\<rparr>,
                 h @ [ArrayObject (flags_of e)])"
proof -
  let ?f1 = "if pattern1 e then [''excessive_overlay_opens''] else []"
  let ?f2 = "?f1 @ (if pattern2 e then [''blocked_domain_access''] else [])"
  let ?f3 = "?f2 @ (if pattern3 e then [''rapid_clicking''] else [])"
  let ?f4 = "?f3 @ (if pattern4 e then [''sheet_edit_attempt''] else [])"
  let ?f5 = "?f4 @ (if pattern5 e then [''cors_error''] else [])"
  have s1: "check_pattern pattern1 ''excessive_overlay_opens'' True ev (length h)
      (h @ [ArrayObject []], False) = (h @ [ArrayObject ?f1], pattern1 e)"
    using check_pattern_last [OF assms, of pattern1 _ True "[]" False] by simp
  have s2: "check_pattern pattern2 ''blocked_domain_access'' True ev (length h)
      (h @ [ArrayObject ?f1], pattern1 e) = (h @ [ArrayObject ?f2], pattern1 e \<or> pattern2 e)"
    using check_pattern_last [OF assms, of pattern2 _ True ?f1 "pattern1 e"] by simp
  have s3: "check_pattern pattern3 ''rapid_clicking'' True ev (length h)
      (h @ [ArrayObject ?f2], pattern1 e \<or> pattern2 e) =
      (h @ [ArrayObject ?f3], (pattern1 e \<or> pattern2 e) \<or> pattern3 e)"
    using check_pattern_last [OF assms, of pattern3 _ True ?f2 "pattern1 e \<or> pattern2 e"] by simp
  have s4: "check_pattern pattern4 ''sheet_edit_attempt'' True ev (length h)
      (h @ [ArrayObject ?f3], (pattern1 e \<or> pattern2 e) \<or> pattern3 e) =
      (h @ [ArrayObject ?f4], ((pattern1 e \<or> pattern2 e) \<or> pattern3 e) \<or> pattern4 e)"
    using check_pattern_last [OF assms, of pattern4 _ True ?f3
        "(pattern1 e \<or> pattern2 e) \<or> pattern3 e"] by simp
  have s5: "check_pattern pattern5 ''cors_error'' False ev (length h)
      (h @ [ArrayObject ?f4], ((pattern1 e \<or> pattern2 e) \<or> pattern3 e) \<or> pattern4 e) =
      (h @ [ArrayObject ?f5], ((pattern1 e \<or> pattern2 e) \<or> pattern3 e) \<or> pattern4 e)"
    using check_pattern_last [OF assms, of pattern5 _ False ?f4
        "((pattern1 e \<or> pattern2 e) \<or> pattern3 e) \<or> pattern4 e"] by simp
  have "checkSecurityPatterns ev h =
      Some (\<lparr>isSuspicious = ((pattern1 e \<or> pattern2 e) \<or> pattern3 e) \<or> pattern4 e,
              flags = length h\<rparr>, h @ [ArrayObject ?f5])"
    unfolding checkSecurityPatterns_def alloc_def
    by (simp only: assms option.case Let_def prod.case s1 s2 s3 s4 s5 fst_conv snd_conv)
  then show ?thesis
    by (simp add: flags_of_def suspicious_of_def)
qed


section \<open>Claim about the event classifier\<close>

text \<open>
  C9. \<^verbatim>\<open>checkSecurityPatterns\<close> is deterministic and free of side effects. Two
  evaluations on the same event, in whatever stores and behind whatever references,
  return the same \<^verbatim>\<open>isSuspicious\<close> and flag arrays with the same contents in the same
  order. An evaluation changes no object that the store held before the call, the
  event included (all it writes is its own new flag array), so that evaluating again
  after the first call gives the same result once more.
\<close>

theorem classifier_deterministic_and_pure:
  assumes "event_at h1 ev1 = Some e" and "event_at h2 ev2 = Some e"
  shows "\<exists>r1 h1' r2 h2' fs.
           checkSecurityPatterns ev1 h1 = Some (r1, h1') \<and>
           checkSecurityPatterns ev2 h2 = Some (r2, h2') \<and>
           isSuspicious r1 = isSuspicious r2 \<and>
           array_at h1' (flags r1) = Some fs \<and>
           array_at h2' (flags r2) = Some fs \<and>
           take (length h1) h1' = h1 \<and>
           event_at h1' ev1 = Some e \<and>
           (\<exists>r3 h3. checkSecurityPatterns ev1 h1' = Some (r3, h3) \<and>
                    isSuspicious r3 = isSuspicious r1 \<and>
                    array_at h3 (flags r3) = Some fs \<and>
                    array_at h3 (flags r1) = Some fs)"
proof -
  let ?r1 = "\<lparr>isSuspicious = suspicious_of e, flags = length h1\<rparr>"
  let ?h1' = "h1 @ [ArrayObject (flags_of e)]"
  let ?r2 = "\<lparr>isSuspicious = suspicious_of e, flags = length h2\<rparr>"
  let ?h2' = "h2 @ [ArrayObject (flags_of e)]"
  let ?r3 = "\<lparr>isSuspicious = suspicious_of e, flags = length ?h1'\<rparr>"
  let ?h3 = "?h1' @ [ArrayObject (flags_of e)]"
  have one: "checkSecurityPatterns ev1 h1 = Some (?r1, ?h1')"
    by (rule checkSecurityPatterns_result [OF assms(1)])
  have two: "checkSecurityPatterns ev2 h2 = Some (?r2, ?h2')"
    by (rule checkSecurityPatterns_result [OF assms(2)])
  have kept: "event_at ?h1' ev1 = Some e"
    by (rule event_at_append [OF assms(1)])
  have three: "checkSecurityPatterns ev1 ?h1' = Some (?r3, ?h3)"
    by (rule checkSecurityPatterns_result [OF kept])
  have a1: "array_at ?h1' (flags ?r1) = Some (flags_of e)"
    by (simp add: array_at_last)
  have a2: "array_at ?h2' (flags ?r2) = Some (flags_of e)"
    by (simp add: array_at_last)
  have a3: "array_at ?h3 (flags ?r3) = Some (flags_of e)"
    using array_at_last [of ?h1' "flags_of e"] by simp
  have a4: "array_at ?h3 (flags ?r1) = Some (flags_of e)"
    by (simp add: array_at_def nth_append)
  have frame: "take (length h1) ?h1' = h1"
    by simp
  have again: "\<exists>r3 h3. checkSecurityPatterns ev1 ?h1' = Some (r3, h3) \<and>
      isSuspicious r3 = isSuspicious ?r1 \<and>
      array_at h3 (flags r3) = Some (flags_of e) \<and>
      array_at h3 (flags ?r1) = Some (flags_of e)"
    using three a3 a4 by (intro exI [of _ ?r3] exI [of _ ?h3]) simp
  show ?thesis
    using one two a1 a2 frame kept again
    by (intro exI [of _ ?r1] exI [of _ ?h1'] exI [of _ ?r2] exI [of _ ?h2']
        exI [of _ "flags_of e"]) simp
qed

theorem classifier_deterministic_and_pure_witness:
  "checkSecurityPatterns 0 [EventObject rapid_click] =
     Some (\<lparr>isSuspicious = True, flags = 1\<rparr>,
           [EventObject rapid_click, ArrayObject [''rapid_clicking'']]) \<and>
   checkSecurityPatterns 1 [EventObject cors_failure, EventObject rapid_click] =
     Some (\<lparr>isSuspicious = True, flags = 2\<rparr>,
           [EventObject cors_failure, EventObject rapid_click, ArrayObject [''rapid_clicking'']]) \<and>
   checkSecurityPatterns 0 [EventObject cors_failure, EventObject rapid_click] =
     Some (\<lparr>isSuspicious = False, flags = 2\<rparr>,
           [EventObject cors_failure, EventObject rapid_click, ArrayObject [''cors_error'']]) \<and>
   (\<exists>r1 h1' r2 h2' fs.
      checkSecurityPatterns 0 [EventObject rapid_click] = Some (r1, h1') \<and>
      checkSecurityPatterns 1 [EventObject cors_failure, EventObject rapid_click] = Some (r2, h2') \<and>
      isSuspicious r1 = isSuspicious r2 \<and>
      array_at h1' (flags r1) = Some fs \<and>
      array_at h2' (flags r2) = Some fs)"
proof -
  have e1: "event_at [EventObject rapid_click] 0 = Some rapid_click"
    by (simp add: event_at_def)
  have e2: "event_at [EventObject cors_failure, EventObject rapid_click] 1 = Some rapid_click"
    by (simp add: event_at_def)
  have e3: "event_at [EventObject cors_failure, EventObject rapid_click] 0 = Some cors_failure"
    by (simp add: event_at_def)
  have f1: "flags_of rapid_click = [''rapid_clicking'']" "suspicious_of rapid_click"
    by (simp_all add: flags_of_def suspicious_of_def rapid_click_def pattern1_def pattern2_def
        pattern3_def pattern4_def pattern5_def)
  have f2: "flags_of cors_failure = [''cors_error'']" "\<not> suspicious_of cors_failure"
    by (simp_all add: flags_of_def suspicious_of_def cors_failure_def pattern1_def pattern2_def
        pattern3_def pattern4_def pattern5_def)
  from classifier_deterministic_and_pure [OF e1 e2]
  have both: "\<exists>r1 h1' r2 h2' fs.
      checkSecurityPatterns 0 [EventObject rapid_click] = Some (r1, h1') \<and>
      checkSecurityPatterns 1 [EventObject cors_failure, EventObject rapid_click] = Some (r2, h2') \<and>
      isSuspicious r1 = isSuspicious r2 \<and>
      array_at h1' (flags r1) = Some fs \<and>
      array_at h2' (flags r2) = Some fs"
    by blast
  from checkSecurityPatterns_result [OF e1] checkSecurityPatterns_result [OF e2]
    checkSecurityPatterns_result [OF e3] f1 f2 both
  show ?thesis
    by simp
qed

end
